theory Spec2Isabelle
  imports Complex_Main "HOL-Library.Sublist"
begin

section \<open>DICOM header extraction to CSV: a shallow embedding of \<open>DICOM-CBCT-stats.py\<close>\<close>

text \<open>
  The script walks a directory tree, reads the header of every DICOM file, drops
  derived images, applies two vendor corrections (Morita, Planmeca), keeps the first
  header of every \<open>SeriesInstanceUID\<close> and writes selected fields to a CSV file.

  What is modelled, and how:
  \<^item> a Python string is a \<open>string\<close>; a character is a code point below 256;
  \<^item> an attribute value is a \<open>pyval\<close>: \<open>None\<close>, \<open>str\<close>, \<open>int\<close>, \<open>float\<close> or a
    multi-valued attribute (pydicom's \<open>MultiValue\<close>);
  \<^item> a Python \<open>float\<close> is a value of a type parameter \<open>'f\<close>; the operations of the
    language on floats that the script uses are the fields of a record \<open>float_ops\<close>
    that every function takes;
  \<^item> a parsed header (pydicom \<open>Dataset\<close>) is a map from attribute keyword to value;
  \<^item> an exception is \<open>Inl\<close> of a \<open>pyerr\<close>;
  \<^item> the directory tree is a datatype; \<open>os.walk\<close> lists it top-down;
  \<^item> the dictionary \<open>dicom_headers\<close> is an association list in insertion order;
  \<^item> the CSV writer receives, for every header, the list of cleaned cell values.
\<close>

subsection \<open>Values, headers and errors\<close>

datatype 'f pyval =
    VNone
  | VStr string
  | VInt int
  | VFloat 'f
  | VMulti "'f pyval list"

type_synonym 'f dataset = "string \<Rightarrow> 'f pyval option"

datatype pyerr = TypeError | AttributeError | ValueError | OverflowError | OSError

text \<open>
  The float operations of Python that the script relies on.
  \<open>float_of_digits n\<close> is \<open>float(s)\<close> for a non-empty string \<open>s\<close> of decimal digits
  with value \<open>n\<close> (it never raises); \<open>float_of_str s\<close> is \<open>float(s)\<close> for any other
  string (\<open>None\<close>: ValueError); \<open>float_of_int i\<close> is \<open>float(i)\<close> (\<open>None\<close>:
  OverflowError); \<open>float_mul\<close> is \<open>*\<close>; \<open>float_100\<close> is the literal \<open>100.0\<close>;
  \<open>float_is_zero\<close>, \<open>float_eq\<close> and \<open>float_eq_int\<close> are \<open>x == 0\<close>, \<open>x == y\<close> and
  \<open>x == i\<close>.
\<close>

record 'f float_ops =
  float_of_digits :: "nat \<Rightarrow> 'f"
  float_of_str :: "string \<Rightarrow> 'f option"
  float_of_int :: "int \<Rightarrow> 'f option"
  float_mul :: "'f \<Rightarrow> 'f \<Rightarrow> 'f"
  float_100 :: "'f"
  float_is_zero :: "'f \<Rightarrow> bool"
  float_eq :: "'f \<Rightarrow> 'f \<Rightarrow> bool"
  float_eq_int :: "'f \<Rightarrow> int \<Rightarrow> bool"

text \<open>\<open>getattr(dicom, name, default)\<close>\<close>

definition getattr :: "'f dataset \<Rightarrow> string \<Rightarrow> 'f pyval \<Rightarrow> 'f pyval" where
  "getattr dicom name dflt = (case dicom name of None \<Rightarrow> dflt | Some v \<Rightarrow> v)"

text \<open>\<open>dicom.name\<close>: AttributeError when the header has no such element.\<close>

definition attr :: "'f dataset \<Rightarrow> string \<Rightarrow> pyerr + 'f pyval" where
  "attr dicom name = (case dicom name of None \<Rightarrow> Inl AttributeError | Some v \<Rightarrow> Inr v)"

subsection \<open>Strings\<close>

text \<open>\<open>p in s\<close> for two strings: \<open>p\<close> occurs in \<open>s\<close> as a contiguous substring.\<close>

fun str_contains :: "string \<Rightarrow> string \<Rightarrow> bool" where
  "str_contains p [] = (p = [])"
| "str_contains p (c # cs) = (prefix p (c # cs) \<or> str_contains p cs)"

text \<open>\<open>str.isspace\<close> on one character below 256.\<close>

definition is_space :: "char \<Rightarrow> bool" where
  "is_space c = (of_char c \<in> {9, 10, 11, 12, 13, 28, 29, 30, 31, 32, 133, 160 :: nat})"

text \<open>\<open>s.strip()\<close>\<close>

definition str_strip :: "string \<Rightarrow> string" where
  "str_strip s = rev (dropWhile is_space (rev (dropWhile is_space s)))"

text \<open>\<open>v.strip()\<close> on a value: only \<open>str\<close> has the method.\<close>

fun py_strip :: "'f pyval \<Rightarrow> pyerr + string" where
  "py_strip (VStr s) = Inr (str_strip s)"
| "py_strip _ = Inl AttributeError"

text \<open>
  \<open>p in v\<close> for a string \<open>p\<close>: substring test on a \<open>str\<close>, membership on a
  multi-valued attribute, TypeError on \<open>None\<close> and on numbers.
\<close>

fun py_in :: "string \<Rightarrow> 'f pyval \<Rightarrow> pyerr + bool" where
  "py_in p (VStr s) = Inr (str_contains p s)"
| "py_in p (VMulti vs) = Inr (VStr p \<in> set vs)"
| "py_in p _ = Inl TypeError"

text \<open>\<open>s.replace(old, new)\<close> for one-character \<open>old\<close> and \<open>new\<close>.\<close>

definition str_replace :: "char \<Rightarrow> char \<Rightarrow> string \<Rightarrow> string" where
  "str_replace old new s = map (\<lambda>c. if c = old then new else c) s"

text \<open>The class \<open>\d\<close> on one character below 256.\<close>

definition is_digit :: "char \<Rightarrow> bool" where
  "is_digit c = (c \<in> set ''0123456789'')"

text \<open>The value of a string of decimal digits.\<close>

definition digits_value :: "string \<Rightarrow> nat" where
  "digits_value s = foldl (\<lambda>n c. 10 * n + (of_char c - 48)) 0 s"

subsection \<open>Truth value, \<open>float()\<close>, dictionary keys\<close>

fun py_truthy :: "'f float_ops \<Rightarrow> 'f pyval \<Rightarrow> bool" where
  "py_truthy fo VNone = False"
| "py_truthy fo (VStr s) = (s \<noteq> [])"
| "py_truthy fo (VInt i) = (i \<noteq> 0)"
| "py_truthy fo (VFloat x) = (\<not> float_is_zero fo x)"
| "py_truthy fo (VMulti vs) = (vs \<noteq> [])"

fun py_float :: "'f float_ops \<Rightarrow> 'f pyval \<Rightarrow> pyerr + 'f" where
  "py_float fo (VFloat x) = Inr x"
| "py_float fo (VInt i) =
     (case float_of_int fo i of None \<Rightarrow> Inl OverflowError | Some x \<Rightarrow> Inr x)"
| "py_float fo (VStr s) =
     (if s \<noteq> [] \<and> list_all is_digit s then Inr (float_of_digits fo (digits_value s))
      else case float_of_str fo s of None \<Rightarrow> Inl ValueError | Some x \<Rightarrow> Inr x)"
| "py_float fo VNone = Inl TypeError"
| "py_float fo (VMulti vs) = Inl TypeError"

text \<open>\<open>a == b\<close> between two dictionary keys.\<close>

fun py_eq :: "'f float_ops \<Rightarrow> 'f pyval \<Rightarrow> 'f pyval \<Rightarrow> bool" where
  "py_eq fo (VStr s) (VStr t) = (s = t)"
| "py_eq fo (VInt i) (VInt j) = (i = j)"
| "py_eq fo (VInt i) (VFloat y) = float_eq_int fo y i"
| "py_eq fo (VFloat x) (VInt j) = float_eq_int fo x j"
| "py_eq fo (VFloat x) (VFloat y) = float_eq fo x y"
| "py_eq fo VNone VNone = True"
| "py_eq fo _ _ = False"

text \<open>
  \<open>key in d\<close> for a dictionary \<open>d\<close>: a multi-valued attribute is not hashable
  (TypeError); any other key is looked up by \<open>==\<close>.
\<close>

fun key_in :: "'f float_ops \<Rightarrow> 'f pyval \<Rightarrow> ('f pyval \<times> 'v) list \<Rightarrow> pyerr + bool" where
  "key_in fo (VMulti vs) d = Inl TypeError"
| "key_in fo k d = Inr (list_ex (\<lambda>(k', v). py_eq fo k' k) d)"

subsection \<open>Regular expressions: \<open>re.search\<close>\<close>

text \<open>
  The fragment of Python's regular expressions that the two patterns of the script use.
  \<open>rx_match r s\<close> lists, in the order in which the backtracking matcher of \<open>re\<close> tries them,
  the rests of \<open>s\<close> after a match of \<open>r\<close> at the start of \<open>s\<close>; the first one is the
  match that \<open>re\<close> reports. Repetition is greedy and gives up on an iteration that
  consumes nothing.
\<close>

datatype rx =
    Eps
  | Lit char
  | Digit
  | OneOf "char list"
  | Seq rx rx
  | Alt rx rx
  | Opt rx
  | Star rx

function rx_match :: "rx \<Rightarrow> string \<Rightarrow> string list" where
  "rx_match Eps s = [s]"
| "rx_match (Lit c) s = (case s of [] \<Rightarrow> [] | x # xs \<Rightarrow> if x = c then [xs] else [])"
| "rx_match Digit s = (case s of [] \<Rightarrow> [] | x # xs \<Rightarrow> if is_digit x then [xs] else [])"
| "rx_match (OneOf cs) s = (case s of [] \<Rightarrow> [] | x # xs \<Rightarrow> if x \<in> set cs then [xs] else [])"
| "rx_match (Seq a b) s = concat (map (rx_match b) (rx_match a s))"
| "rx_match (Alt a b) s = rx_match a s @ rx_match b s"
| "rx_match (Opt a) s = rx_match a s @ [s]"
| "rx_match (Star a) s =
     concat (map (\<lambda>s'. if length s' < length s then rx_match (Star a) s' else [])
                 (rx_match a s)) @ [s]"
  by pat_completeness auto
termination
  by (relation "measures [\<lambda>(r, s). size r, \<lambda>(r, s). length s]") auto

text \<open>The equation of \<open>Star\<close> unfolds itself under its own \<open>map\<close>: it is used by hand.\<close>

declare rx_match.simps(8) [simp del]

text \<open>\<open>a+\<close> is \<open>aa*\<close>; a literal word is the sequence of its characters.\<close>

definition Plus :: "rx \<Rightarrow> rx" where
  "Plus a = Seq a (Star a)"

fun lits :: "string \<Rightarrow> rx" where
  "lits [] = Eps"
| "lits (c # cs) = Seq (Lit c) (lits cs)"

text \<open>
  \<open>re.search(r, s)\<close>, reduced to what the script reads from the match object:
  \<open>group(0)\<close> of the leftmost match, or \<open>None\<close>.
\<close>

fun re_search :: "rx \<Rightarrow> string \<Rightarrow> string option" where
  "re_search r [] = (case rx_match r [] of [] \<Rightarrow> None | rest # _ \<Rightarrow> Some [])"
| "re_search r (c # cs) =
     (case rx_match r (c # cs) of
        [] \<Rightarrow> re_search r cs
      | rest # _ \<Rightarrow> Some (take (length (c # cs) - length rest) (c # cs)))"

text \<open>The pattern \<open>"DAP:(\d+mGycm2)"\<close> of \<open>process_directory\<close>.\<close>

definition dap_pattern :: rx where
  "dap_pattern = Seq (lits ''DAP:'') (Seq (Plus Digit) (lits ''mGycm2''))"

text \<open>The pattern \<open>r"[-+]?\d*\.\d+|\d+"\<close> of \<open>extract_value_from_comments\<close>.\<close>

definition number_pattern :: rx where
  "number_pattern =
     Alt (Seq (Opt (OneOf ''-+'')) (Seq (Star Digit) (Seq (Lit (CHR ''.'')) (Plus Digit))))
         (Plus Digit)"

text \<open>
  \<open>extract_value_from_comments(comments, pattern)\<close>. \<open>re.search\<close> raises TypeError on a
  value that is not a string; \<open>match.group(0)\<close> raises AttributeError when the first
  search found nothing.
\<close>

fun extract_value_from_comments :: "'f pyval \<Rightarrow> rx \<Rightarrow> pyerr + 'f pyval" where
  "extract_value_from_comments (VStr comments) pattern =
     (case re_search pattern comments of
        None \<Rightarrow> Inl AttributeError
      | Some group0 \<Rightarrow>
          (case re_search number_pattern group0 of
             Some number \<Rightarrow> Inr (VStr number)
           | None \<Rightarrow> Inr VNone))"
| "extract_value_from_comments _ pattern = Inl TypeError"

subsection \<open>The directory tree\<close>

text \<open>
  What \<open>pydicom.dcmread(path, stop_before_pixels=True)\<close> does on a directory entry: it
  returns a header, raises \<open>InvalidDicomError\<close>, or raises something else.
\<close>

datatype 'f dcmread_result =
    Header "'f dataset"
  | InvalidDicomError
  | OtherError

text \<open>
  A directory entry that \<open>os.walk\<close> lists under \<open>files\<close>: whether \<open>os.path.isfile\<close>
  holds of it, and what reading it gives. A directory holds such entries and
  subdirectories, in the order in which \<open>os.walk\<close> lists them.
\<close>

datatype 'f fsfile = FsFile (isfile: bool) (dcmread: "'f dcmread_result")

datatype 'f dir = Dir "'f fsfile list" "'f dir list"

text \<open>
  \<open>os.walk(top)\<close>, top-down: the directory itself with its files, then the walk of every
  subdirectory. The component \<open>dirs\<close> of the triples is not used by the script.
\<close>

fun os_walk :: "'f dir \<Rightarrow> ('f dir \<times> 'f fsfile list) list" where
  "os_walk (Dir files subdirs) = (Dir files subdirs, files) # concat (map os_walk subdirs)"

text \<open>\<open>is_dicom_file\<close>: only \<open>InvalidDicomError\<close> is caught.\<close>

fun is_dicom_file :: "'f fsfile \<Rightarrow> pyerr + bool" where
  "is_dicom_file (FsFile reg (Header dicom)) = Inr True"
| "is_dicom_file (FsFile reg InvalidDicomError) = Inr False"
| "is_dicom_file (FsFile reg OtherError) = Inl OSError"

text \<open>
  \<open>count_files(dirpath)\<close>: the two loops with the counter. The directory was listed by
  \<open>os.walk\<close>, so it exists and the early \<open>return 0\<close> is not taken.
\<close>

fun count_in_files :: "'f fsfile list \<Rightarrow> nat \<Rightarrow> nat" where
  "count_in_files [] file_count = file_count"
| "count_in_files (file # files) file_count =
     count_in_files files (if isfile file then file_count + 1 else file_count)"

fun count_in_walk :: "('f dir \<times> 'f fsfile list) list \<Rightarrow> nat \<Rightarrow> nat" where
  "count_in_walk [] file_count = file_count"
| "count_in_walk ((dirpath, files) # rest) file_count =
     count_in_walk rest (count_in_files files file_count)"

definition count_files :: "'f dir \<Rightarrow> nat" where
  "count_files file_path = count_in_walk (os_walk file_path) 0"

subsection \<open>\<open>process_directory\<close>\<close>

type_synonym 'f headers = "('f pyval \<times> 'f dataset) list"

text \<open>
  Lines 68 to 73: the vendor correction of one header read from a file of directory
  \<open>dirpath\<close> (the \<open>root\<close> of the source's loop). The result is the header as it is stored.
\<close>

definition vendor_correct :: "'f float_ops \<Rightarrow> 'f dir \<Rightarrow> 'f dataset \<Rightarrow> pyerr + 'f dataset" where
  "vendor_correct fo dirpath dicom =
     (case py_strip (getattr dicom ''Manufacturer'' VNone) of
        Inl e \<Rightarrow> Inl e
      | Inr m \<Rightarrow>
          if str_contains ''Morita'' m then
            (case extract_value_from_comments (getattr dicom ''ImageComments'' VNone) dap_pattern of
               Inl e \<Rightarrow> Inl e
             | Inr DAP_dose \<Rightarrow>
                 (case py_float fo DAP_dose of
                    Inl e \<Rightarrow> Inl e
                  | Inr x \<Rightarrow> Inr (dicom(''AcquiredImageAreaDoseProduct'' \<mapsto> VFloat x))))
          else
            (case py_strip (getattr dicom ''Manufacturer'' VNone) of
               Inl e \<Rightarrow> Inl e
             | Inr m' \<Rightarrow>
                 if str_contains ''Planmeca'' m' then
                   (let dicom1 = dicom(''ImagesInAcquisition'' \<mapsto> VInt (int (count_files dirpath)))
                    in case attr dicom1 ''AcquiredImageAreaDoseProduct'' of
                         Inl e \<Rightarrow> Inl e
                       | Inr dose \<Rightarrow>
                           (case py_float fo dose of
                              Inl e \<Rightarrow> Inl e
                            | Inr x \<Rightarrow>
                                Inr (dicom1(''AcquiredImageAreaDoseProduct'' \<mapsto>
                                       VFloat (float_mul fo x (float_100 fo))))))
                 else Inr dicom))"

text \<open>
  Lines 63 to 75: the body of the inner loop for a file that \<open>is_dicom_file\<close> accepted and
  \<open>dcmread\<close> read as \<open>dicom\<close>.
\<close>

definition process_header ::
  "'f float_ops \<Rightarrow> 'f dir \<Rightarrow> 'f dataset \<Rightarrow> 'f headers \<Rightarrow> pyerr + 'f headers" where
  "process_header fo dirpath dicom dicom_headers =
     (case py_in ''DERIVED'' (getattr dicom ''ImageType'' VNone) of
        Inl e \<Rightarrow> Inl e
      | Inr True \<Rightarrow> Inr dicom_headers
      | Inr False \<Rightarrow>
          (let series_instance_uid = getattr dicom ''SeriesInstanceUID'' VNone in
           if \<not> py_truthy fo series_instance_uid then Inr dicom_headers
           else
             (case key_in fo series_instance_uid dicom_headers of
                Inl e \<Rightarrow> Inl e
              | Inr True \<Rightarrow> Inr dicom_headers
              | Inr False \<Rightarrow>
                  (case vendor_correct fo dirpath dicom of
                     Inl e \<Rightarrow> Inl e
                   | Inr dicom' \<Rightarrow> Inr (dicom_headers @ [(series_instance_uid, dicom')])))))"

text \<open>
  Lines 61 to 75: the body of the inner loop for one directory entry. The file is read
  twice, by \<open>is_dicom_file\<close> and by line 63; the second read gives what the first gave.
\<close>

definition process_file ::
  "'f float_ops \<Rightarrow> 'f dir \<Rightarrow> 'f fsfile \<Rightarrow> 'f headers \<Rightarrow> pyerr + 'f headers" where
  "process_file fo dirpath file dicom_headers =
     (case is_dicom_file file of
        Inl e \<Rightarrow> Inl e
      | Inr False \<Rightarrow> Inr dicom_headers
      | Inr True \<Rightarrow>
          (case dcmread file of
             Header dicom \<Rightarrow> process_header fo dirpath dicom dicom_headers
           | InvalidDicomError \<Rightarrow> Inl OSError
           | OtherError \<Rightarrow> Inl OSError))"

text \<open>The inner loop \<open>for file in files\<close> and the outer loop over \<open>os.walk\<close>.\<close>

fun process_files ::
  "'f float_ops \<Rightarrow> 'f dir \<Rightarrow> 'f fsfile list \<Rightarrow> 'f headers \<Rightarrow> pyerr + 'f headers" where
  "process_files fo dirpath [] dicom_headers = Inr dicom_headers"
| "process_files fo dirpath (file # files) dicom_headers =
     (case process_file fo dirpath file dicom_headers of
        Inl e \<Rightarrow> Inl e
      | Inr dicom_headers' \<Rightarrow> process_files fo dirpath files dicom_headers')"

fun process_walk ::
  "'f float_ops \<Rightarrow> ('f dir \<times> 'f fsfile list) list \<Rightarrow> 'f headers \<Rightarrow> pyerr + 'f headers" where
  "process_walk fo [] dicom_headers = Inr dicom_headers"
| "process_walk fo ((dirpath, files) # rest) dicom_headers =
     (case process_files fo dirpath files dicom_headers of
        Inl e \<Rightarrow> Inl e
      | Inr dicom_headers' \<Rightarrow> process_walk fo rest dicom_headers')"

definition process_directory :: "'f float_ops \<Rightarrow> 'f dir \<Rightarrow> pyerr + 'f headers" where
  "process_directory fo directory_path = process_walk fo (os_walk directory_path) []"

subsection \<open>\<open>clean_value\<close> and \<open>dicom_headers_to_csv\<close>\<close>

fun clean_value :: "'f pyval \<Rightarrow> 'f pyval" where
  "clean_value (VStr v) =
     VStr (str_replace (CHR '','') (CHR '';'')
            (str_replace (CHR 0x0D) (CHR '' '')
              (str_replace (CHR 0x0A) (CHR '' '') v)))"
| "clean_value v = v"

text \<open>
  The row of one header: for every field of the selection, in order, the cleaned value
  of the attribute, with the empty string for an attribute the header lacks. This is the
  list that \<open>DictWriter.writerow\<close> hands to the CSV writer.
\<close>

definition csv_row :: "string list \<Rightarrow> 'f dataset \<Rightarrow> 'f pyval list" where
  "csv_row fieldnames dicom = map (\<lambda>field. clean_value (getattr dicom field (VStr []))) fieldnames"

text \<open>
  \<open>dicom_headers_to_csv\<close>: the header row and one row per entry of the dictionary, in
  insertion order.
\<close>

definition dicom_headers_to_csv ::
  "'f headers \<Rightarrow> string list \<Rightarrow> string list \<times> 'f pyval list list" where
  "dicom_headers_to_csv dicom_headers select =
     (select, map (\<lambda>(uid, dicom). csv_row select dicom) dicom_headers)"

subsection \<open>Notions used to state the properties\<close>

text \<open>The test of line 64 succeeds: the header is a derived image.\<close>

definition is_derived :: "'f dataset \<Rightarrow> bool" where
  "is_derived dicom = (py_in ''DERIVED'' (getattr dicom ''ImageType'' VNone) = Inr True)"

definition derived_file :: "'f fsfile \<Rightarrow> bool" where
  "derived_file file =
     (case dcmread file of Header dicom \<Rightarrow> is_derived dicom | InvalidDicomError \<Rightarrow> False
      | OtherError \<Rightarrow> False)"

text \<open>A walk from whose file lists the derived images are removed.\<close>

definition without_derived ::
  "('f dir \<times> 'f fsfile list) list \<Rightarrow> ('f dir \<times> 'f fsfile list) list" where
  "without_derived w =
     map (\<lambda>(dirpath, files). (dirpath, filter (\<lambda>file. \<not> derived_file file) files)) w"

text \<open>
  The stored header \<open>dicom'\<close> under key \<open>uid\<close> comes from a file of the walk that is read
  as a header which is not derived, has \<open>uid\<close> as its identifier and is corrected to
  \<open>dicom'\<close>.
\<close>

definition comes_from ::
  "'f float_ops \<Rightarrow> ('f dir \<times> 'f fsfile list) list \<Rightarrow> 'f pyval \<times> 'f dataset \<Rightarrow> bool" where
  "comes_from fo w entry =
     (\<exists>dirpath files file dicom.
        (dirpath, files) \<in> set w \<and> file \<in> set files \<and> dcmread file = Header dicom
        \<and> py_in ''DERIVED'' (getattr dicom ''ImageType'' VNone) = Inr False
        \<and> fst entry = getattr dicom ''SeriesInstanceUID'' VNone
        \<and> vendor_correct fo dirpath dicom = Inr (snd entry))"

text \<open>
  The headers that a walk reads, in the order of the traversal, each with the directory
  of its file; and the loop body run over such a list.
\<close>

fun headers_of_files :: "'f dir \<Rightarrow> 'f fsfile list \<Rightarrow> ('f dir \<times> 'f dataset) list" where
  "headers_of_files dirpath [] = []"
| "headers_of_files dirpath (file # files) =
     (case dcmread file of Header dicom \<Rightarrow> [(dirpath, dicom)] | InvalidDicomError \<Rightarrow> []
      | OtherError \<Rightarrow> [])
     @ headers_of_files dirpath files"

fun headers_of_walk :: "('f dir \<times> 'f fsfile list) list \<Rightarrow> ('f dir \<times> 'f dataset) list" where
  "headers_of_walk [] = []"
| "headers_of_walk ((dirpath, files) # rest) =
     headers_of_files dirpath files @ headers_of_walk rest"

fun process_headers ::
  "'f float_ops \<Rightarrow> ('f dir \<times> 'f dataset) list \<Rightarrow> 'f headers \<Rightarrow> pyerr + 'f headers" where
  "process_headers fo [] hs = Inr hs"
| "process_headers fo ((dirpath, dicom) # rest) hs =
     (case process_header fo dirpath dicom hs of
        Inl e \<Rightarrow> Inl e
      | Inr hs' \<Rightarrow> process_headers fo rest hs')"

text \<open>
  A header qualifies for the series \<open>s\<close>: it is not derived and its identifier is the
  string \<open>s\<close>.
\<close>

definition qualifies :: "string \<Rightarrow> 'f dir \<times> 'f dataset \<Rightarrow> bool" where
  "qualifies s h =
     (py_in ''DERIVED'' (getattr (snd h) ''ImageType'' VNone) = Inr False
      \<and> snd h ''SeriesInstanceUID'' = Some (VStr s))"

text \<open>
  The entries of the dictionary under the key \<open>s\<close>, and the rows of the exported table
  that are written for them.
\<close>

definition entries_of :: "string \<Rightarrow> 'f headers \<Rightarrow> 'f headers" where
  "entries_of s hs = filter (\<lambda>(uid, dicom). uid = VStr s) hs"

definition rows_of_series :: "string \<Rightarrow> 'f headers \<Rightarrow> string list \<Rightarrow> 'f pyval list list" where
  "rows_of_series s hs select =
     map snd (filter (\<lambda>(uid, row). uid = VStr s)
                (zip (map fst hs) (snd (dicom_headers_to_csv hs select))))"

text \<open>
  The dictionary \<open>hs\<close> holds, for the series \<open>s\<close>, the corrected first qualifying header of
  the list and nothing else.
\<close>

definition first_wins ::
  "'f float_ops \<Rightarrow> string \<Rightarrow> ('f dir \<times> 'f dataset) list \<Rightarrow> 'f headers \<Rightarrow> bool" where
  "first_wins fo s hdrs hs =
     (case find (qualifies s) hdrs of
        None \<Rightarrow> entries_of s hs = []
      | Some (dirpath, dicom) \<Rightarrow>
          (\<exists>dicom'. vendor_correct fo dirpath dicom = Inr dicom'
                   \<and> entries_of s hs = [(VStr s, dicom')]))"

text \<open>
  The number of entries below a directory, at any depth, of which \<open>os.path.isfile\<close>
  holds: the regular files. This is the count that the specification asks for, written by
  recursion over the tree.
\<close>

fun regular_files_below :: "'f dir \<Rightarrow> nat" where
  "regular_files_below (Dir files subdirs) =
     length (filter isfile files) + sum_list (map regular_files_below subdirs)"

text \<open>
  The rests that the matcher tries after \<open>\d*\<close> at the start of a string, longest
  run of digits first.
\<close>

fun digit_tails :: "string \<Rightarrow> string list" where
  "digit_tails [] = [[]]"
| "digit_tails (c # cs) = (if is_digit c then digit_tails cs @ [c # cs] else [c # cs])"

text \<open>
  A match of \<open>DAP:(\d+mGycm2)\<close> at the start of a string, computed directly: the rest
  of the string after the match, if there is one.
\<close>

definition dap_rest :: "string \<Rightarrow> string option" where
  "dap_rest s =
     (let t = drop (length ''DAP:'') s in
      if prefix ''DAP:'' s \<and> t \<noteq> [] \<and> is_digit (hd t) \<and> prefix ''mGycm2'' (dropWhile is_digit t)
      then Some (drop (length ''mGycm2'') (dropWhile is_digit t)) else None)"

text \<open>
  A non-empty string of decimal digits, and the text \<open>DAP:<digits>mGycm2\<close> that the
  device writes into the comments.
\<close>

definition digits :: "string \<Rightarrow> bool" where
  "digits ds = (ds \<noteq> [] \<and> list_all is_digit ds)"

definition dap_text :: "string \<Rightarrow> string" where
  "dap_text ds = ''DAP:'' @ ds @ ''mGycm2''"

subsection \<open>Example inputs\<close>

text \<open>
  An instance of the float operations for the examples: exact rational arithmetic. It
  agrees with Python's floats on the numbers of the examples (integers of a few digits,
  where nothing is rounded). It converts no string but digit strings.
\<close>

definition exact_ops :: "rat float_ops" where
  "exact_ops =
     \<lparr> float_of_digits = of_nat,
       float_of_str = (\<lambda>s. None),
       float_of_int = (\<lambda>i. Some (of_int i)),
       float_mul = (\<lambda>x y. x * y),
       float_100 = 100,
       float_is_zero = (\<lambda>x. x = 0),
       float_eq = (\<lambda>x y. x = y),
       float_eq_int = (\<lambda>x i. x = of_int i) \<rparr>"

definition original :: "rat pyval" where
  "original = VMulti [VStr ''ORIGINAL'', VStr ''PRIMARY'', VStr ''AXIAL'']"

definition sectra_header :: "rat dataset" where
  "sectra_header =
     [''ImageType'' \<mapsto> original, ''SeriesInstanceUID'' \<mapsto> VStr ''1.2.3'',
      ''Manufacturer'' \<mapsto> VStr ''Sectra'']"

definition no_manufacturer_header :: "rat dataset" where
  "no_manufacturer_header =
     [''ImageType'' \<mapsto> original, ''SeriesInstanceUID'' \<mapsto> VStr ''1.2.4'']"

definition empty_uid_header :: "rat dataset" where
  "empty_uid_header = [''ImageType'' \<mapsto> original, ''SeriesInstanceUID'' \<mapsto> VStr []]"

definition no_image_type_header :: "rat dataset" where
  "no_image_type_header =
     [''SeriesInstanceUID'' \<mapsto> VStr ''1.2.5'', ''Manufacturer'' \<mapsto> VStr ''Sectra'']"

definition planmeca_header :: "rat dataset" where
  "planmeca_header =
     [''ImageType'' \<mapsto> original, ''SeriesInstanceUID'' \<mapsto> VStr ''1.2.7'',
      ''Manufacturer'' \<mapsto> VStr ''Planmeca ProMax Mid'',
      ''AcquiredImageAreaDoseProduct'' \<mapsto> VInt 50]"

definition planmeca_dir :: "rat dir" where
  "planmeca_dir = Dir (replicate 120 (FsFile True (Header planmeca_header))) []"

definition both_vendors_header :: "rat dataset" where
  "both_vendors_header =
     [''ImageType'' \<mapsto> original, ''SeriesInstanceUID'' \<mapsto> VStr ''1.2.8'',
      ''Manufacturer'' \<mapsto> VStr ''Morita Planmeca'',
      ''ImageComments'' \<mapsto> VStr ''DAP:7mGycm2'',
      ''AcquiredImageAreaDoseProduct'' \<mapsto> VInt 50]"

definition morita_header :: "rat dataset" where
  "morita_header =
     [''ImageType'' \<mapsto> original, ''SeriesInstanceUID'' \<mapsto> VStr ''1.2.9'',
      ''Manufacturer'' \<mapsto> VStr ''Morita Accuitomo 170'',
      ''ImageComments'' \<mapsto> VStr ''CT DAP:123mGycm2 90kV'',
      ''AcquiredImageAreaDoseProduct'' \<mapsto> VInt 0]"

definition morita_no_dap_header :: "rat dataset" where
  "morita_no_dap_header =
     [''ImageType'' \<mapsto> original, ''SeriesInstanceUID'' \<mapsto> VStr ''1.2.10'',
      ''Manufacturer'' \<mapsto> VStr ''Morita Accuitomo 170'',
      ''ImageComments'' \<mapsto> VStr ''no dose recorded'']"

definition same_series_header :: "rat dataset" where
  "same_series_header =
     [''ImageType'' \<mapsto> original, ''SeriesInstanceUID'' \<mapsto> VStr ''1.2.7'',
      ''Manufacturer'' \<mapsto> VStr ''Sectra'', ''StationName'' \<mapsto> VStr ''PACS'']"

definition same_series_tree :: "rat dir" where
  "same_series_tree =
     Dir [FsFile True InvalidDicomError]
         [Dir [FsFile True (Header planmeca_header), FsFile True (Header same_series_header)] [],
          Dir [FsFile True (Header sectra_header)] []]"

definition derived_header :: "rat dataset" where
  "derived_header =
     [''ImageType'' \<mapsto> VMulti [VStr ''DERIVED'', VStr ''SECONDARY''],
      ''SeriesInstanceUID'' \<mapsto> VStr ''1.2.6'', ''Manufacturer'' \<mapsto> VStr ''Sectra'']"

definition derived_tree :: "rat dir" where
  "derived_tree =
     Dir [FsFile True (Header derived_header), FsFile True (Header sectra_header)] []"

definition no_image_type_tree :: "rat dir" where
  "no_image_type_tree =
     Dir [FsFile True InvalidDicomError]
         [Dir [FsFile True (Header sectra_header), FsFile True (Header no_image_type_header)] []]"

section \<open>Properties\<close>

subsection \<open>Substrings and \<open>strip\<close>\<close>

lemma str_contains_iff: "str_contains p s \<longleftrightarrow> (\<exists>u v. s = u @ p @ v)"
proof (induction s)
  case Nil
  then show ?case by auto
next
  case (Cons c cs)
  show ?case
  proof
    assume "str_contains p (c # cs)"
    then consider "prefix p (c # cs)" | "str_contains p cs" by auto
    then show "\<exists>u v. c # cs = u @ p @ v"
    proof cases
      case 1
      then obtain v where "c # cs = p @ v" by (auto simp: prefix_def)
      then have "c # cs = [] @ p @ v" by simp
      then show ?thesis by blast
    next
      case 2
      with Cons.IH obtain u v where "cs = u @ p @ v" by blast
      then have "c # cs = (c # u) @ p @ v" by simp
      then show ?thesis by blast
    qed
  next
    assume "\<exists>u v. c # cs = u @ p @ v"
    then obtain u v where uv: "c # cs = u @ p @ v" by blast
    show "str_contains p (c # cs)"
    proof (cases u)
      case Nil
      with uv have "prefix p (c # cs)" by (simp add: prefix_def)
      then show ?thesis by simp
    next
      case (Cons a u')
      with uv have "cs = u' @ p @ v" by simp
      with Cons.IH show ?thesis by auto
    qed
  qed
qed

lemma str_contains_rev: "str_contains (rev p) (rev s) = str_contains p s"
proof -
  have "(\<exists>u v. rev s = u @ rev p @ v) \<longleftrightarrow> (\<exists>u v. s = u @ p @ v)"
  proof
    assume "\<exists>u v. rev s = u @ rev p @ v"
    then obtain u v where "rev s = u @ rev p @ v" by blast
    then have "rev (rev s) = rev (u @ rev p @ v)" by simp
    then have "s = rev v @ p @ rev u" by simp
    then show "\<exists>u v. s = u @ p @ v" by blast
  next
    assume "\<exists>u v. s = u @ p @ v"
    then obtain u v where "s = u @ p @ v" by blast
    then have "rev s = rev v @ rev p @ rev u" by simp
    then show "\<exists>u v. rev s = u @ rev p @ v" by blast
  qed
  then show ?thesis by (simp add: str_contains_iff)
qed

lemma str_contains_dropWhile:
  assumes "p \<noteq> []" and "\<not> is_space (hd p)"
  shows "str_contains p (dropWhile is_space s) = str_contains p s"
proof (induction s)
  case Nil
  then show ?case by simp
next
  case (Cons c cs)
  show ?case
  proof (cases "is_space c")
    case True
    with assms have "\<not> prefix p (c # cs)" by (cases p) auto
    with True Cons.IH show ?thesis by simp
  next
    case False
    then show ?thesis by simp
  qed
qed

text \<open>Trimming does not change whether a word without outer blanks occurs.\<close>

lemma str_contains_strip:
  assumes "p \<noteq> []" and "\<not> is_space (hd p)" and "\<not> is_space (last p)"
  shows "str_contains p (str_strip s) = str_contains p s"
proof -
  have r: "rev p \<noteq> []" "\<not> is_space (hd (rev p))"
    using assms by (simp_all add: hd_rev)
  have "str_contains p (str_strip s)
        = str_contains (rev p) (dropWhile is_space (rev (dropWhile is_space s)))"
    unfolding str_strip_def by (metis str_contains_rev rev_rev_ident)
  also have "\<dots> = str_contains (rev p) (rev (dropWhile is_space s))"
    using r by (rule str_contains_dropWhile)
  also have "\<dots> = str_contains p (dropWhile is_space s)"
    by (rule str_contains_rev)
  also have "\<dots> = str_contains p s"
    using assms(1,2) by (rule str_contains_dropWhile)
  finally show ?thesis .
qed

lemma strip_Morita: "str_contains ''Morita'' (str_strip m) = str_contains ''Morita'' m"
  by (rule str_contains_strip) (simp_all add: is_space_def)

lemma strip_Planmeca: "str_contains ''Planmeca'' (str_strip m) = str_contains ''Planmeca'' m"
  by (rule str_contains_strip) (simp_all add: is_space_def)

subsection \<open>\<open>count_files\<close> counts the regular files below a directory\<close>

lemma count_in_files_eq: "count_in_files files c = c + length (filter isfile files)"
  by (induction files arbitrary: c) simp_all

lemma count_in_walk_append:
  "count_in_walk (w1 @ w2) c = count_in_walk w2 (count_in_walk w1 c)"
  by (induction w1 arbitrary: c) auto

lemma count_in_walk_eq: "count_in_walk (os_walk d) c = c + regular_files_below d"
proof (induction d arbitrary: c)
  case (Dir files subdirs)
  have "count_in_walk (concat (map os_walk subdirs)) c'
        = c' + sum_list (map regular_files_below subdirs)" for c'
    using Dir.IH
  proof (induction subdirs arbitrary: c')
    case Nil
    then show ?case by simp
  next
    case (Cons d ds)
    then show ?case by (simp add: count_in_walk_append)
  qed
  then show ?case by (simp add: count_in_files_eq)
qed

lemma count_files_eq: "count_files d = regular_files_below d"
  by (simp add: count_files_def count_in_walk_eq)

subsection \<open>The two searches of \<open>extract_value_from_comments\<close>\<close>

lemma rx_match_lits: "rx_match (lits w) s = (if prefix w s then [drop (length w) s] else [])"
  by (induction w arbitrary: s) (auto split: list.splits)

lemma rx_match_Star_Digit: "rx_match (Star Digit) s = digit_tails s"
  by (induction s) (simp_all add: rx_match.simps(8))

lemma rx_match_Plus_Digit:
  "rx_match (Plus Digit) s = (case s of [] \<Rightarrow> [] | c # cs \<Rightarrow> if is_digit c then digit_tails cs else [])"
  by (simp add: Plus_def rx_match_Star_Digit split: list.splits)

lemma digit_tails_then_lits:
  assumes "w \<noteq> []" and "\<not> is_digit (hd w)"
  shows "concat (map (rx_match (lits w)) (digit_tails s)) = rx_match (lits w) (dropWhile is_digit s)"
proof (induction s)
  case Nil
  then show ?case by simp
next
  case (Cons c cs)
  show ?case
  proof (cases "is_digit c")
    case True
    with assms have "\<not> prefix w (c # cs)" by (cases w) auto
    with True Cons.IH show ?thesis by (simp add: rx_match_lits)
  next
    case False
    then show ?thesis by simp
  qed
qed

lemma rx_match_digits_unit:
  "rx_match (Seq (Plus Digit) (lits ''mGycm2'')) t
   = (if t \<noteq> [] \<and> is_digit (hd t) \<and> prefix ''mGycm2'' (dropWhile is_digit t)
      then [drop (length ''mGycm2'') (dropWhile is_digit t)] else [])"
proof (cases t)
  case Nil
  then show ?thesis by (simp add: rx_match_Plus_Digit del: lits.simps)
next
  case (Cons c cs)
  have "concat (map (rx_match (lits ''mGycm2'')) (digit_tails cs))
        = rx_match (lits ''mGycm2'') (dropWhile is_digit cs)"
    by (rule digit_tails_then_lits) (simp_all add: is_digit_def)
  then have "rx_match (Seq (Plus Digit) (lits ''mGycm2'')) t
        = (if is_digit c then rx_match (lits ''mGycm2'') (dropWhile is_digit cs) else [])"
    using Cons by (simp add: rx_match_Plus_Digit del: lits.simps)
  with Cons show ?thesis
    by (simp add: rx_match_lits del: lits.simps)
qed

lemma rx_match_dap_pattern:
  "rx_match dap_pattern s = (case dap_rest s of None \<Rightarrow> [] | Some r \<Rightarrow> [r])"
proof -
  have "rx_match dap_pattern s
        = concat (map (rx_match (Seq (Plus Digit) (lits ''mGycm2''))) (rx_match (lits ''DAP:'') s))"
    unfolding dap_pattern_def by (simp only: rx_match.simps(5))
  also have "\<dots> = (if prefix ''DAP:'' s
                    then rx_match (Seq (Plus Digit) (lits ''mGycm2'')) (drop (length ''DAP:'') s) else [])"
    by (simp only: rx_match_lits) simp
  also have "\<dots> = (case dap_rest s of None \<Rightarrow> [] | Some r \<Rightarrow> [r])"
    by (simp only: rx_match_digits_unit dap_rest_def Let_def) simp
  finally show ?thesis .
qed

lemma dropWhile_digits:
  "list_all is_digit ds \<Longrightarrow> \<not> is_digit x \<Longrightarrow> dropWhile is_digit (ds @ x # r) = x # r"
  by (induction ds) simp_all

lemma dap_rest_Some_iff:
  "dap_rest s = Some r \<longleftrightarrow> (\<exists>ds. digits ds \<and> s = dap_text ds @ r)"
proof
  assume a: "dap_rest s = Some r"
  define t where "t = drop (length ''DAP:'') s"
  from a have p: "prefix ''DAP:'' s" and t: "t \<noteq> []" "is_digit (hd t)"
    and m: "prefix ''mGycm2'' (dropWhile is_digit t)"
    and r: "r = drop (length ''mGycm2'') (dropWhile is_digit t)"
    unfolding dap_rest_def t_def Let_def by (auto split: if_splits)
  from p have s: "s = ''DAP:'' @ t" unfolding t_def prefix_def by auto
  from m r have d: "dropWhile is_digit t = ''mGycm2'' @ r" unfolding prefix_def by auto
  have "t = takeWhile is_digit t @ dropWhile is_digit t" by simp
  with s d have "s = dap_text (takeWhile is_digit t) @ r" by (simp add: dap_text_def)
  moreover from t have "digits (takeWhile is_digit t)"
    by (cases t) (auto simp: digits_def list_all_iff dest: set_takeWhileD)
  ultimately show "\<exists>ds. digits ds \<and> s = dap_text ds @ r" by blast
next
  assume "\<exists>ds. digits ds \<and> s = dap_text ds @ r"
  then obtain ds where ds: "ds \<noteq> []" "list_all is_digit ds" and s: "s = dap_text ds @ r"
    by (auto simp: digits_def)
  have m: "\<not> is_digit (CHR ''m'')" by (simp add: is_digit_def)
  have "dropWhile is_digit (ds @ ''mGycm2'' @ r) = ''mGycm2'' @ r"
    using dropWhile_digits [OF ds(2) m] by simp
  moreover from ds have "is_digit (hd (ds @ ''mGycm2'' @ r))" by (cases ds) auto
  ultimately show "dap_rest s = Some r"
    using ds(1) by (simp add: s dap_rest_def dap_text_def)
qed

lemma re_search_dap_leftmost:
  assumes "digits ds"
    and "\<forall>pre' ds' post'. digits ds' \<and> pre @ dap_text ds @ post = pre' @ dap_text ds' @ post'
           \<longrightarrow> length pre \<le> length pre'"
  shows "re_search dap_pattern (pre @ dap_text ds @ post) = Some (dap_text ds)"
  using assms(2)
proof (induction pre)
  case Nil
  from assms(1) have "dap_rest (dap_text ds @ post) = Some post"
    by (auto simp: dap_rest_Some_iff)
  then have "rx_match dap_pattern (dap_text ds @ post) = [post]"
    by (simp add: rx_match_dap_pattern)
  moreover obtain x xs where "dap_text ds @ post = x # xs"
    by (simp add: dap_text_def)
  ultimately have "re_search dap_pattern (dap_text ds @ post)
      = Some (take (length (dap_text ds @ post) - length post) (dap_text ds @ post))"
    by simp
  then show ?case by simp
next
  case (Cons a pre)
  have "dap_rest (a # pre @ dap_text ds @ post) = None"
  proof (rule ccontr)
    assume "dap_rest (a # pre @ dap_text ds @ post) \<noteq> None"
    then obtain r where "dap_rest (a # pre @ dap_text ds @ post) = Some r" by auto
    then obtain ds' where "digits ds'" "(a # pre) @ dap_text ds @ post = [] @ dap_text ds' @ r"
      by (auto simp: dap_rest_Some_iff)
    with Cons.prems have "length (a # pre) \<le> length ([] :: string)" by blast
    then show False by simp
  qed
  then have "re_search dap_pattern ((a # pre) @ dap_text ds @ post)
             = re_search dap_pattern (pre @ dap_text ds @ post)"
    by (simp add: rx_match_dap_pattern)
  moreover have "\<forall>pre' ds' post'. digits ds' \<and> pre @ dap_text ds @ post = pre' @ dap_text ds' @ post'
           \<longrightarrow> length pre \<le> length pre'"
  proof (intro allI impI)
    fix pre' ds' post'
    assume "digits ds' \<and> pre @ dap_text ds @ post = pre' @ dap_text ds' @ post'"
    then have "digits ds' \<and> (a # pre) @ dap_text ds @ post = (a # pre') @ dap_text ds' @ post'"
      by simp
    with Cons.prems have "length (a # pre) \<le> length (a # pre')" by blast
    then show "length pre \<le> length pre'" by simp
  qed
  ultimately show ?case using Cons.IH by simp
qed

lemma re_search_dap_None:
  assumes "\<forall>pre ds post. digits ds \<longrightarrow> c \<noteq> pre @ dap_text ds @ post"
  shows "re_search dap_pattern c = None"
  using assms
proof (induction c)
  case Nil
  have "dap_rest [] = None" by (simp add: dap_rest_def)
  then show ?case by (simp add: rx_match_dap_pattern)
next
  case (Cons a c)
  have "dap_rest (a # c) = None"
  proof (rule ccontr)
    assume "dap_rest (a # c) \<noteq> None"
    then obtain r ds where "digits ds" "a # c = [] @ dap_text ds @ r"
      by (auto simp: dap_rest_Some_iff)
    with Cons.prems show False by blast
  qed
  moreover have "\<forall>pre ds post. digits ds \<longrightarrow> c \<noteq> pre @ dap_text ds @ post"
  proof (intro allI impI notI)
    fix pre ds post
    assume "digits ds" "c = pre @ dap_text ds @ post"
    then have "digits ds" "a # c = (a # pre) @ dap_text ds @ post" by simp_all
    with Cons.prems show False by blast
  qed
  ultimately show ?case using Cons.IH by (simp add: rx_match_dap_pattern)
qed

lemma number_nomatch:
  "\<not> is_digit c \<Longrightarrow> c \<noteq> CHR ''.'' \<Longrightarrow> c \<noteq> CHR ''-'' \<Longrightarrow> c \<noteq> CHR ''+''
     \<Longrightarrow> rx_match number_pattern (c # cs) = []"
  by (simp add: number_pattern_def rx_match_Star_Digit rx_match_Plus_Digit)

lemma digit_tails_heads:
  "list_all is_digit ds \<Longrightarrow> \<not> is_digit x \<Longrightarrow> t \<in> set (digit_tails (ds @ x # r))
     \<Longrightarrow> t \<noteq> [] \<and> (is_digit (hd t) \<or> hd t = x)"
  by (induction ds) auto

lemma digit_tails_first:
  "list_all is_digit ds \<Longrightarrow> \<not> is_digit x \<Longrightarrow> \<exists>ts. digit_tails (ds @ x # r) = (x # r) # ts"
  by (induction ds) auto

lemma number_match_digits:
  assumes "digits ds" and "\<not> is_digit x" and "x \<noteq> CHR ''.''"
  shows "\<exists>ts. rx_match number_pattern (ds @ x # r) = (x # r) # ts"
proof -
  from assms(1) obtain d ds' where ds: "ds = d # ds'" "is_digit d" "list_all is_digit ds'"
    by (cases ds) (auto simp: digits_def)
  from ds(2) have d: "d \<noteq> CHR ''-''" "d \<noteq> CHR ''+''" by (auto simp: is_digit_def)
  have all: "list_all is_digit ds" using ds by simp
  have "rx_match (Seq (Lit (CHR ''.'')) (Plus Digit)) t = []"
    if "t \<in> set (digit_tails (ds @ x # r))" for t
  proof -
    from digit_tails_heads [OF all assms(2) that] assms(3)
    obtain c cs where "t = c # cs" "c \<noteq> CHR ''.''"
      by (cases t) (auto simp: is_digit_def)
    then show ?thesis by simp
  qed
  then have 0: "concat (map (rx_match (Seq (Lit (CHR ''.'')) (Plus Digit))) (digit_tails (ds @ x # r))) = []"
    by simp
  have "rx_match (Opt (OneOf ''-+'')) (ds @ x # r) = [ds @ x # r]"
    using ds(1) d by simp
  then have "rx_match (Seq (Opt (OneOf ''-+'')) (Seq (Star Digit) (Seq (Lit (CHR ''.'')) (Plus Digit))))
                 (ds @ x # r)
        = concat (map (rx_match (Seq (Lit (CHR ''.'')) (Plus Digit))) (rx_match (Star Digit) (ds @ x # r)))"
    by (simp only: rx_match.simps(5)) simp
  with 0 have 1: "rx_match (Seq (Opt (OneOf ''-+'')) (Seq (Star Digit) (Seq (Lit (CHR ''.'')) (Plus Digit))))
                 (ds @ x # r) = []"
    by (simp only: rx_match_Star_Digit)
  from digit_tails_first [OF ds(3) assms(2)] obtain ts where "digit_tails (ds' @ x # r) = (x # r) # ts"
    by blast
  then have 2: "rx_match (Plus Digit) (ds @ x # r) = (x # r) # ts"
    using ds by (simp add: rx_match_Plus_Digit)
  have "rx_match number_pattern (ds @ x # r) = (x # r) # ts"
    unfolding number_pattern_def rx_match.simps(6) by (simp only: 1 2 append_Nil)
  then show ?thesis by blast
qed

lemma re_search_number:
  assumes "digits ds"
  shows "re_search number_pattern (dap_text ds) = Some ds"
proof -
  have m: "\<not> is_digit (CHR ''m'')" "CHR ''m'' \<noteq> CHR ''.''" by (simp_all add: is_digit_def)
  from number_match_digits [OF assms m] obtain ts
    where ts: "rx_match number_pattern (ds @ ''mGycm2'') = ''mGycm2'' # ts" by auto
  from assms obtain d ds' where ds: "ds = d # ds'" by (cases ds) (auto simp: digits_def)
  have "re_search number_pattern (ds @ ''mGycm2'') = Some ds"
    using ts unfolding ds by simp
  then show ?thesis
    by (simp add: dap_text_def number_nomatch is_digit_def)
qed

lemma extract_value_digits:
  assumes "digits ds"
    and "\<forall>pre' ds' post'. digits ds' \<and> pre @ dap_text ds @ post = pre' @ dap_text ds' @ post'
           \<longrightarrow> length pre \<le> length pre'"
  shows "extract_value_from_comments (VStr (pre @ dap_text ds @ post)) dap_pattern = Inr (VStr ds)"
  using re_search_dap_leftmost [OF assms] re_search_number [OF assms(1)] by simp

text \<open>
  Whatever the first search finds holds digits, so the second search finds them: the
  final \<open>return None\<close> of \<open>extract_value_from_comments\<close> is never reached with the
  pattern of the script.
\<close>

lemma re_search_dap_Some:
  "re_search dap_pattern c = Some w \<Longrightarrow> \<exists>ds. digits ds \<and> w = dap_text ds"
proof (induction c)
  case Nil
  have "dap_rest [] = None" by (simp add: dap_rest_def)
  with Nil show ?case by (simp add: rx_match_dap_pattern)
next
  case (Cons a c)
  show ?case
  proof (cases "dap_rest (a # c)")
    case None
    with Cons show ?thesis by (simp add: rx_match_dap_pattern)
  next
    case (Some r)
    then obtain ds where ds: "digits ds" "a # c = dap_text ds @ r"
      by (auto simp: dap_rest_Some_iff)
    from Some Cons.prems have "w = take (length (a # c) - length r) (a # c)"
      by (simp add: rx_match_dap_pattern)
    with ds have "w = dap_text ds" by simp
    with ds(1) show ?thesis by blast
  qed
qed

lemma extract_value_never_None:
  "extract_value_from_comments comments dap_pattern \<noteq> Inr VNone"
proof (cases comments)
  case (VStr c)
  show ?thesis
  proof (cases "re_search dap_pattern c")
    case None
    with VStr show ?thesis by simp
  next
    case (Some w)
    then obtain ds where "digits ds" "w = dap_text ds" by (auto dest: re_search_dap_Some)
    with Some VStr show ?thesis by (simp add: re_search_number)
  qed
qed simp_all

lemma leftmost_by_scan:
  assumes "\<forall>k < length pre. dap_rest (drop k (pre @ rest)) = None"
  shows "\<forall>pre' ds' post'. digits ds' \<and> pre @ rest = pre' @ dap_text ds' @ post'
           \<longrightarrow> length pre \<le> length pre'"
proof (intro allI impI)
  fix pre' ds' post'
  assume a: "digits ds' \<and> pre @ rest = pre' @ dap_text ds' @ post'"
  show "length pre \<le> length pre'"
  proof (rule ccontr)
    assume "\<not> length pre \<le> length pre'"
    then have "length pre' < length pre" by simp
    with assms have "dap_rest (drop (length pre') (pre @ rest)) = None" by blast
    moreover from a have "drop (length pre') (pre @ rest) = dap_text ds' @ post'" by simp
    moreover from a have "dap_rest (dap_text ds' @ post') = Some post'"
      by (auto simp: dap_rest_Some_iff)
    ultimately show False by simp
  qed
qed

text \<open>Among the occurrences of the text in a string there is a leftmost one.\<close>

lemma leftmost_exists:
  assumes "digits ds0" and "c = pre0 @ dap_text ds0 @ post0"
  shows "\<exists>pre ds post. digits ds \<and> c = pre @ dap_text ds @ post
           \<and> (\<forall>pre' ds' post'. digits ds' \<and> c = pre' @ dap_text ds' @ post'
                 \<longrightarrow> length pre \<le> length pre')"
proof -
  define P where "P n = (\<exists>pre ds post. length pre = n \<and> digits ds \<and> c = pre @ dap_text ds @ post)"
    for n
  from assms have "P (length pre0)" unfolding P_def by blast
  then have "P (LEAST n. P n)" by (rule LeastI)
  then obtain pre ds post where p: "length pre = (LEAST n. P n)" "digits ds"
    "c = pre @ dap_text ds @ post"
    unfolding P_def by blast
  have "length pre \<le> length pre'" if "digits ds' \<and> c = pre' @ dap_text ds' @ post'"
    for pre' ds' post'
  proof -
    from that have "P (length pre')" unfolding P_def by blast
    then have "(LEAST n. P n) \<le> length pre'" by (rule Least_le)
    with p(1) show ?thesis by simp
  qed
  with p(2,3) show ?thesis by blast
qed

lemma vendor_correct_morita:
  assumes "dicom ''Manufacturer'' = Some (VStr m)" and "str_contains ''Morita'' m"
    and "dicom ''ImageComments'' = Some (VStr (pre @ dap_text ds @ post))"
    and "digits ds"
    and "\<forall>pre' ds' post'. digits ds' \<and> pre @ dap_text ds @ post = pre' @ dap_text ds' @ post'
           \<longrightarrow> length pre \<le> length pre'"
  shows "vendor_correct fo dirpath dicom
         = Inr (dicom(''AcquiredImageAreaDoseProduct'' \<mapsto>
                        VFloat (float_of_digits fo (digits_value ds))))"
proof -
  have "extract_value_from_comments (getattr dicom ''ImageComments'' VNone) dap_pattern
        = Inr (VStr ds)"
    using extract_value_digits [OF assms(4,5)] assms(3) by (simp add: getattr_def)
  moreover have "py_float fo (VStr ds) = Inr (float_of_digits fo (digits_value ds))"
    using assms(4) by (simp add: digits_def)
  ultimately show ?thesis
    using assms(1,2) by (simp add: vendor_correct_def getattr_def strip_Morita)
qed

subsection \<open>The loops stop at the first exception\<close>

lemma process_files_abort:
  "file \<in> set files \<Longrightarrow> (\<forall>hs. \<exists>e. process_file fo dirpath file hs = Inl e)
     \<Longrightarrow> \<exists>e. process_files fo dirpath files hs = Inl e"
proof (induction files arbitrary: hs)
  case Nil
  then show ?case by simp
next
  case (Cons f fs)
  show ?case
  proof (cases "process_file fo dirpath f hs")
    case (Inl e)
    then show ?thesis by simp
  next
    case (Inr hs')
    with Cons.prems have "file \<in> set fs" by (metis Inl_Inr_False set_ConsD)
    with Cons.IH Cons.prems(2) Inr show ?thesis by simp
  qed
qed

lemma process_walk_abort:
  "(dirpath, files) \<in> set w \<Longrightarrow> (\<forall>hs. \<exists>e. process_files fo dirpath files hs = Inl e)
     \<Longrightarrow> \<exists>e. process_walk fo w hs = Inl e"
proof (induction w arbitrary: hs)
  case Nil
  then show ?case by simp
next
  case (Cons p w)
  obtain r fs where p: "p = (r, fs)" by (cases p)
  show ?case
  proof (cases "process_files fo r fs hs")
    case (Inl e)
    then show ?thesis by (simp add: p)
  next
    case (Inr hs')
    with Cons.prems p have "(dirpath, files) \<in> set w"
      by (metis Inl_Inr_False set_ConsD prod.inject)
    with Cons.IH Cons.prems(2) Inr p show ?thesis by simp
  qed
qed

subsection \<open>A header without image type\<close>

lemma process_header_no_image_type:
  "dicom ''ImageType'' = None \<Longrightarrow> process_header fo dirpath dicom hs = Inl TypeError"
  by (simp add: process_header_def getattr_def)

text \<open>
  C10. A file that is read as a header without the element \<open>ImageType\<close> makes the
  membership test \<open>"DERIVED" in None\<close> raise TypeError: the loop body raises it whatever
  the dictionary holds, before the identifier is read or the vendor is looked at, and a
  directory tree that lists such a file makes \<open>process_directory\<close> end with an exception
  instead of a dictionary.
\<close>

theorem missing_image_type_aborts:
  assumes "(dirpath, files) \<in> set (os_walk directory_path)" and "file \<in> set files"
    and "dcmread file = Header dicom" and "dicom ''ImageType'' = None"
  shows "(\<forall>hs. process_header fo dirpath dicom hs = Inl TypeError)
       \<and> (\<forall>hs. process_file fo dirpath file hs = Inl TypeError)
       \<and> (\<exists>e. process_directory fo directory_path = Inl e)"
proof -
  have h: "\<And>hs. process_header fo dirpath dicom hs = Inl TypeError"
    using assms(4) by (rule process_header_no_image_type)
  have f: "\<And>hs. process_file fo dirpath file hs = Inl TypeError"
    using assms(3) h by (cases "file") (simp add: process_file_def)
  from f have "\<And>hs. \<exists>e. process_files fo dirpath files hs = Inl e"
    using process_files_abort [OF assms(2)] by blast
  then have "\<exists>e. process_directory fo directory_path = Inl e"
    unfolding process_directory_def using process_walk_abort [OF assms(1)] by blast
  with h f show ?thesis by blast
qed

theorem missing_image_type_aborts_witness:
  "process_header exact_ops
     (Dir [FsFile True (Header sectra_header), FsFile True (Header no_image_type_header)] [])
     no_image_type_header [] = Inl TypeError
   \<and> (\<exists>e. process_directory exact_ops no_image_type_tree = Inl e)"
  using missing_image_type_aborts
    [of "Dir [FsFile True (Header sectra_header), FsFile True (Header no_image_type_header)] []"
        "[FsFile True (Header sectra_header), FsFile True (Header no_image_type_header)]"
        no_image_type_tree "FsFile True (Header no_image_type_header)"
        no_image_type_header exact_ops]
  by (simp add: no_image_type_tree_def no_image_type_header_def)

subsection \<open>The vendor dispatch\<close>

text \<open>
  C7, as amended. A header that is not derived, whose identifier is present, non-empty
  (true as a condition) and not yet a key of the dictionary, and that has no element
  \<open>Manufacturer\<close>, makes the vendor dispatch raise AttributeError (\<open>None.strip()\<close>), and
  with it the loop body.
\<close>

theorem missing_manufacturer_fatal:
  assumes "py_in ''DERIVED'' (getattr dicom ''ImageType'' VNone) = Inr False"
    and "dicom ''SeriesInstanceUID'' = Some uid" and "py_truthy fo uid"
    and "key_in fo uid hs = Inr False"
    and "dicom ''Manufacturer'' = None"
  shows "vendor_correct fo dirpath dicom = Inl AttributeError
       \<and> process_header fo dirpath dicom hs = Inl AttributeError"
  using assms by (simp add: process_header_def vendor_correct_def getattr_def)

theorem missing_manufacturer_fatal_witness:
  "process_header exact_ops (Dir [] []) no_manufacturer_header [] = Inl AttributeError"
  using missing_manufacturer_fatal [of no_manufacturer_header "VStr ''1.2.4''" exact_ops "[]" "Dir [] []"]
  by (simp add: no_manufacturer_header_def original_def getattr_def)

text \<open>
  C7 as stated fails for an identifier that is present and empty: the condition of line 67
  is false, the header is skipped and the missing manufacturer is never looked at.
\<close>

theorem empty_identifier_is_skipped:
  "py_in ''DERIVED'' (getattr empty_uid_header ''ImageType'' VNone) = Inr False
   \<and> empty_uid_header ''SeriesInstanceUID'' = Some (VStr [])
   \<and> key_in exact_ops (VStr []) [] = Inr False
   \<and> empty_uid_header ''Manufacturer'' = None
   \<and> process_header exact_ops (Dir [] []) empty_uid_header [] = Inr []"
  by (simp add: empty_uid_header_def original_def getattr_def process_header_def)

text \<open>
  C8. When the manufacturer is a string whose trimmed form contains neither \<open>Morita\<close> nor
  \<open>Planmeca\<close>, the vendor correction returns the header as it was read, and a header
  that passes the tests of lines 64 and 67 is stored under its identifier unchanged.
\<close>

theorem other_vendor_unchanged:
  assumes "dicom ''Manufacturer'' = Some (VStr m)"
    and "\<not> str_contains ''Morita'' (str_strip m)"
    and "\<not> str_contains ''Planmeca'' (str_strip m)"
  shows "vendor_correct fo dirpath dicom = Inr dicom
       \<and> (py_in ''DERIVED'' (getattr dicom ''ImageType'' VNone) = Inr False
            \<and> py_truthy fo (getattr dicom ''SeriesInstanceUID'' VNone)
            \<and> key_in fo (getattr dicom ''SeriesInstanceUID'' VNone) hs = Inr False
          \<longrightarrow> process_header fo dirpath dicom hs
                = Inr (hs @ [(getattr dicom ''SeriesInstanceUID'' VNone, dicom)]))"
  using assms by (simp add: process_header_def vendor_correct_def getattr_def)

theorem other_vendor_unchanged_witness:
  "vendor_correct exact_ops (Dir [] []) sectra_header = Inr sectra_header
   \<and> process_header exact_ops (Dir [] []) sectra_header [] = Inr [(VStr ''1.2.3'', sectra_header)]"
  using other_vendor_unchanged [of sectra_header "''Sectra''" exact_ops "Dir [] []" "[]"]
  by (simp add: sectra_header_def original_def getattr_def str_strip_def is_space_def)

subsection \<open>The two vendor corrections\<close>

text \<open>
  C2. The manufacturer contains \<open>Morita\<close> and the comments contain a text
  \<open>DAP:<digits>mGycm2\<close>. Then the correction takes the leftmost such text of the
  comments (the one that \<open>re.search\<close> finds), stores \<open>float()\<close> of its digits as the
  dose, whatever the dose was, and changes nothing else; the exported cell of the dose is
  that float.
\<close>

theorem morita_dose_from_comments:
  assumes "dicom ''Manufacturer'' = Some (VStr m)" and "str_contains ''Morita'' m"
    and "dicom ''ImageComments'' = Some (VStr c)"
    and "c = pre0 @ dap_text ds0 @ post0" and "digits ds0"
  shows "\<exists>pre ds post.
           c = pre @ dap_text ds @ post \<and> digits ds
           \<and> (\<forall>pre' ds' post'. digits ds' \<and> c = pre' @ dap_text ds' @ post'
                 \<longrightarrow> length pre \<le> length pre')
           \<and> vendor_correct fo dirpath dicom
               = Inr (dicom(''AcquiredImageAreaDoseProduct'' \<mapsto>
                              VFloat (float_of_digits fo (digits_value ds))))
           \<and> csv_row [''AcquiredImageAreaDoseProduct'']
                (dicom(''AcquiredImageAreaDoseProduct'' \<mapsto>
                              VFloat (float_of_digits fo (digits_value ds))))
               = [VFloat (float_of_digits fo (digits_value ds))]"
proof -
  from leftmost_exists [OF assms(5,4)] obtain pre ds post
    where d: "digits ds" and c: "c = pre @ dap_text ds @ post"
      and l: "\<forall>pre' ds' post'. digits ds' \<and> c = pre' @ dap_text ds' @ post'
                 \<longrightarrow> length pre \<le> length pre'"
    by blast
  from assms(3) c have i: "dicom ''ImageComments'' = Some (VStr (pre @ dap_text ds @ post))"
    by simp
  from l c have l': "\<forall>pre' ds' post'. digits ds' \<and> pre @ dap_text ds @ post = pre' @ dap_text ds' @ post'
                 \<longrightarrow> length pre \<le> length pre'"
    by simp
  have "vendor_correct fo dirpath dicom
               = Inr (dicom(''AcquiredImageAreaDoseProduct'' \<mapsto>
                              VFloat (float_of_digits fo (digits_value ds))))"
    using assms(1,2) i d l' by (rule vendor_correct_morita)
  moreover have "csv_row [''AcquiredImageAreaDoseProduct'']
                (dicom(''AcquiredImageAreaDoseProduct'' \<mapsto>
                              VFloat (float_of_digits fo (digits_value ds))))
               = [VFloat (float_of_digits fo (digits_value ds))]"
    by (simp add: csv_row_def getattr_def)
  ultimately show ?thesis using d c l by blast
qed

theorem morita_dose_from_comments_witness:
  "(\<exists>ds. digits ds
      \<and> vendor_correct exact_ops (Dir [] []) morita_header
        = Inr (morita_header(''AcquiredImageAreaDoseProduct'' \<mapsto>
                 VFloat (float_of_digits exact_ops (digits_value ds)))))
   \<and> vendor_correct exact_ops (Dir [] []) morita_header
     = Inr (morita_header(''AcquiredImageAreaDoseProduct'' \<mapsto> VFloat 123))
   \<and> csv_row [''AcquiredImageAreaDoseProduct'']
        (morita_header(''AcquiredImageAreaDoseProduct'' \<mapsto> VFloat 123))
     = [VFloat 123]"
proof -
  have m: "morita_header ''Manufacturer'' = Some (VStr ''Morita Accuitomo 170'')"
    by (simp add: morita_header_def)
  have c: "morita_header ''ImageComments'' = Some (VStr ''CT DAP:123mGycm2 90kV'')"
    by (simp add: morita_header_def)
  have c': "morita_header ''ImageComments'' = Some (VStr (''CT '' @ dap_text ''123'' @ '' 90kV''))"
    by (simp add: morita_header_def dap_text_def)
  have e: "''CT DAP:123mGycm2 90kV'' = ''CT '' @ dap_text ''123'' @ '' 90kV''"
    by (simp add: dap_text_def)
  have p: "str_contains ''Morita'' ''Morita Accuitomo 170''" by simp
  have d: "digits ''123''" by (simp add: digits_def is_digit_def)
  from morita_dose_from_comments [OF m p c e d, of exact_ops "Dir [] []"]
  have 1: "\<exists>ds. digits ds
      \<and> vendor_correct exact_ops (Dir [] []) morita_header
        = Inr (morita_header(''AcquiredImageAreaDoseProduct'' \<mapsto>
                 VFloat (float_of_digits exact_ops (digits_value ds))))"
    by blast
  have "\<forall>k < length ''CT ''. dap_rest (drop k (''CT '' @ dap_text ''123'' @ '' 90kV'')) = None"
    by (simp add: dap_rest_def dap_text_def less_Suc_eq)
  then have l: "\<forall>pre' ds' post'. digits ds'
      \<and> ''CT '' @ dap_text ''123'' @ '' 90kV'' = pre' @ dap_text ds' @ post'
      \<longrightarrow> length ''CT '' \<le> length pre'"
    by (rule leftmost_by_scan)
  have v: "float_of_digits exact_ops (digits_value ''123'') = 123"
    by (simp add: digits_value_def exact_ops_def)
  from vendor_correct_morita [OF m p c' d l, of exact_ops "Dir [] []"] v
  have 2: "vendor_correct exact_ops (Dir [] []) morita_header
     = Inr (morita_header(''AcquiredImageAreaDoseProduct'' \<mapsto> VFloat 123))"
    by simp
  from 1 2 show ?thesis by (simp add: csv_row_def getattr_def)
qed

text \<open>
  C3, as amended. The manufacturer contains \<open>Planmeca\<close> and does not contain \<open>Morita\<close>,
  and the header has a dose that \<open>float()\<close> converts to \<open>x\<close>. Then the correction stores
  the result of \<open>count_files\<close> on the directory of the file as the slice count, which is
  the number of regular files below that directory at any depth, and \<open>x * 100.0\<close> as the
  dose, and changes nothing else.
\<close>

theorem planmeca_slices_and_dose:
  assumes "dicom ''Manufacturer'' = Some (VStr m)"
    and "str_contains ''Planmeca'' m" and "\<not> str_contains ''Morita'' m"
    and "dicom ''AcquiredImageAreaDoseProduct'' = Some dose"
    and "py_float fo dose = Inr x"
  shows "vendor_correct fo dirpath dicom
         = Inr (dicom(''ImagesInAcquisition'' \<mapsto> VInt (int (count_files dirpath)),
                      ''AcquiredImageAreaDoseProduct'' \<mapsto> VFloat (float_mul fo x (float_100 fo))))
       \<and> count_files dirpath = regular_files_below dirpath"
  using assms
  by (simp add: vendor_correct_def getattr_def attr_def strip_Morita strip_Planmeca count_files_eq)

theorem planmeca_slices_and_dose_witness:
  "vendor_correct exact_ops planmeca_dir planmeca_header
   = Inr (planmeca_header(''ImagesInAcquisition'' \<mapsto> VInt 120,
                          ''AcquiredImageAreaDoseProduct'' \<mapsto> VFloat 5000))
   \<and> csv_row [''AcquiredImageAreaDoseProduct'', ''ImagesInAcquisition'']
        (planmeca_header(''ImagesInAcquisition'' \<mapsto> VInt 120,
                         ''AcquiredImageAreaDoseProduct'' \<mapsto> VFloat 5000))
     = [VFloat 5000, VInt 120]"
proof -
  have m: "planmeca_header ''Manufacturer'' = Some (VStr ''Planmeca ProMax Mid'')"
    and d: "planmeca_header ''AcquiredImageAreaDoseProduct'' = Some (VInt 50)"
    by (simp_all add: planmeca_header_def)
  have p: "str_contains ''Planmeca'' ''Planmeca ProMax Mid''"
    and q: "\<not> str_contains ''Morita'' ''Planmeca ProMax Mid''"
    by simp_all
  have f: "py_float exact_ops (VInt 50) = Inr 50" by (simp add: exact_ops_def)
  have n: "regular_files_below planmeca_dir = 120" by (simp add: planmeca_dir_def)
  from planmeca_slices_and_dose [OF m p q d f, of planmeca_dir] n
  have "vendor_correct exact_ops planmeca_dir planmeca_header
   = Inr (planmeca_header(''ImagesInAcquisition'' \<mapsto> VInt 120,
                          ''AcquiredImageAreaDoseProduct'' \<mapsto> VFloat 5000))"
    by (simp add: exact_ops_def)
  then show ?thesis by (simp add: csv_row_def getattr_def)
qed

text \<open>
  C3 as stated fails for a manufacturer that contains both words: line 68 is tested first,
  the Morita correction is applied and the \<open>elif\<close> of line 71 is not reached, so the slice
  count is not set and the dose is not multiplied.
\<close>

theorem both_vendors_morita_wins:
  "both_vendors_header ''Manufacturer'' = Some (VStr ''Morita Planmeca'')
   \<and> str_contains ''Planmeca'' ''Morita Planmeca''
   \<and> both_vendors_header ''AcquiredImageAreaDoseProduct'' = Some (VInt 50)
   \<and> count_files planmeca_dir = 120
   \<and> vendor_correct exact_ops planmeca_dir both_vendors_header
     = Inr (both_vendors_header(''AcquiredImageAreaDoseProduct'' \<mapsto> VFloat 7))
   \<and> (both_vendors_header(''AcquiredImageAreaDoseProduct'' \<mapsto> VFloat 7)) ''ImagesInAcquisition''
     = None
   \<and> vendor_correct exact_ops planmeca_dir both_vendors_header
     \<noteq> Inr (both_vendors_header(''ImagesInAcquisition'' \<mapsto> VInt 120,
                                 ''AcquiredImageAreaDoseProduct'' \<mapsto> VFloat 5000))"
proof -
  have m: "both_vendors_header ''Manufacturer'' = Some (VStr ''Morita Planmeca'')"
    by (simp add: both_vendors_header_def)
  have c: "both_vendors_header ''ImageComments'' = Some (VStr ([] @ dap_text ''7'' @ []))"
    by (simp add: both_vendors_header_def dap_text_def)
  have p: "str_contains ''Morita'' ''Morita Planmeca''" by simp
  have d: "digits ''7''" by (simp add: digits_def is_digit_def)
  have v: "float_of_digits exact_ops (digits_value ''7'') = 7"
    by (simp add: digits_value_def exact_ops_def)
  have 1: "vendor_correct exact_ops planmeca_dir both_vendors_header
     = Inr (both_vendors_header(''AcquiredImageAreaDoseProduct'' \<mapsto> VFloat 7))"
    using vendor_correct_morita [OF m p c d, of exact_ops planmeca_dir] v by simp
  have 2: "(both_vendors_header(''AcquiredImageAreaDoseProduct'' \<mapsto> VFloat 7)) ''ImagesInAcquisition''
     = None"
    by (simp add: both_vendors_header_def)
  have 3: "both_vendors_header(''AcquiredImageAreaDoseProduct'' \<mapsto> VFloat 7)
    \<noteq> both_vendors_header(''ImagesInAcquisition'' \<mapsto> VInt 120,
                                 ''AcquiredImageAreaDoseProduct'' \<mapsto> VFloat 5000)"
    by (metis fun_upd_same option.inject pyval.inject(3) numeral_eq_iff semiring_norm(89) num.distinct)
  have 4: "count_files planmeca_dir = 120"
    by (simp add: count_files_eq planmeca_dir_def)
  from m 1 2 3 4 show ?thesis by (simp add: both_vendors_header_def)
qed

text \<open>
  A Morita header whose comments are a string without a text \<open>DAP:<digits>mGycm2\<close>:
  the extraction raises AttributeError, and so does the correction.
\<close>

lemma morita_without_dap_raises:
  assumes "dicom ''Manufacturer'' = Some (VStr m)" and "str_contains ''Morita'' m"
    and "dicom ''ImageComments'' = Some (VStr c)"
    and "\<forall>pre ds post. digits ds \<longrightarrow> c \<noteq> pre @ dap_text ds @ post"
  shows "extract_value_from_comments (VStr c) dap_pattern = Inl AttributeError"
    and "vendor_correct fo dirpath dicom = Inl AttributeError"
proof -
  from assms(4) have "re_search dap_pattern c = None" by (rule re_search_dap_None)
  then show 1: "extract_value_from_comments (VStr c) dap_pattern = Inl AttributeError"
    by simp
  show "vendor_correct fo dirpath dicom = Inl AttributeError"
    unfolding vendor_correct_def getattr_def assms(1,3) option.case 1
    using assms(2) by (simp add: strip_Morita)
qed

text \<open>
  C6. For a Morita header whose comments hold no text \<open>DAP:<digits>mGycm2\<close>, the first
  search finds nothing and \<open>extract_value_from_comments\<close> raises AttributeError at
  \<open>match.group(0)\<close>; the run ends with that exception. The extraction never returns
  \<open>None\<close>, so \<open>float()\<close> is never called on it.
\<close>

theorem missing_dap_raises_in_extraction:
  "re_search dap_pattern ''no dose recorded'' = None
   \<and> extract_value_from_comments (VStr ''no dose recorded'') dap_pattern = Inl AttributeError
   \<and> vendor_correct exact_ops (Dir [] []) morita_no_dap_header = Inl AttributeError
   \<and> process_header exact_ops (Dir [] []) morita_no_dap_header [] = Inl AttributeError
   \<and> (\<forall>comments :: rat pyval. extract_value_from_comments comments dap_pattern \<noteq> Inr VNone)"
proof -
  have 1: "re_search dap_pattern ''no dose recorded'' = None"
    by (simp add: rx_match_dap_pattern dap_rest_def)
  then have 2: "extract_value_from_comments (VStr ''no dose recorded'') dap_pattern = Inl AttributeError"
    by simp
  have m: "morita_no_dap_header ''Manufacturer'' = Some (VStr ''Morita Accuitomo 170'')"
    and c: "morita_no_dap_header ''ImageComments'' = Some (VStr ''no dose recorded'')"
    and i: "morita_no_dap_header ''ImageType'' = Some original"
    and u: "morita_no_dap_header ''SeriesInstanceUID'' = Some (VStr ''1.2.10'')"
    by (simp_all add: morita_no_dap_header_def)
  have 3: "vendor_correct exact_ops (Dir [] []) morita_no_dap_header = Inl AttributeError"
    unfolding vendor_correct_def getattr_def m c option.case 2 by (simp add: strip_Morita)
  have 4: "process_header exact_ops (Dir [] []) morita_no_dap_header [] = Inl AttributeError"
    unfolding process_header_def getattr_def i u option.case 3 by (simp add: original_def)
  from 1 2 3 4 extract_value_never_None show ?thesis by blast
qed

subsection \<open>Derived images\<close>

lemma process_header_derived:
  "is_derived dicom \<Longrightarrow> process_header fo dirpath dicom hs = Inr hs"
  by (simp add: is_derived_def process_header_def)

lemma process_file_derived:
  "derived_file file \<Longrightarrow> process_file fo dirpath file hs = Inr hs"
  by (cases "file") (auto simp: derived_file_def process_file_def process_header_derived 
      split: dcmread_result.splits)

lemma process_files_without_derived:
  "process_files fo dirpath (filter (\<lambda>file. \<not> derived_file file) files) hs
   = process_files fo dirpath files hs"
  by (induction files arbitrary: hs) (auto simp: process_file_derived split: sum.splits)

lemma process_walk_without_derived:
  "process_walk fo (without_derived w) hs = process_walk fo w hs"
  by (induction w arbitrary: hs)
    (auto simp: without_derived_def process_files_without_derived split: sum.splits)

lemma comes_from_mono:
  "comes_from fo w entry \<Longrightarrow> set w \<subseteq> set w' \<Longrightarrow> comes_from fo w' entry"
  unfolding comes_from_def by blast

lemma process_header_comes_from:
  assumes "process_header fo dirpath dicom hs = Inr hs'" and "entry \<in> set hs'"
  shows "entry \<in> set hs \<or>
     (py_in ''DERIVED'' (getattr dicom ''ImageType'' VNone) = Inr False
        \<and> fst entry = getattr dicom ''SeriesInstanceUID'' VNone
        \<and> vendor_correct fo dirpath dicom = Inr (snd entry))"
  using assms
  by (auto simp: process_header_def Let_def split: sum.splits bool.splits if_splits)

lemma process_files_comes_from:
  "process_files fo dirpath files hs = Inr hs' \<Longrightarrow> entry \<in> set hs' \<Longrightarrow>
     entry \<in> set hs \<or> comes_from fo [(dirpath, files)] entry"
proof (induction files arbitrary: hs)
  case Nil
  then show ?case by simp
next
  case (Cons f fs)
  from Cons.prems(1) obtain hs1 where f: "process_file fo dirpath f hs = Inr hs1"
    and fs: "process_files fo dirpath fs hs1 = Inr hs'"
    by (auto split: sum.splits)
  from Cons.IH [OF fs Cons.prems(2)]
  consider "entry \<in> set hs1" | "comes_from fo [(dirpath, fs)] entry" by blast
  then show ?case
  proof cases
    case 1
    show ?thesis
    proof (cases "dcmread f")
      case (Header dicom)
      with f have "process_header fo dirpath dicom hs = Inr hs1"
        by (cases f) (auto simp: process_file_def)
      from process_header_comes_from [OF this 1] Header show ?thesis
        unfolding comes_from_def by auto
    next
      case InvalidDicomError
      with f 1 show ?thesis by (cases f) (auto simp: process_file_def)
    next
      case OtherError
      with f 1 show ?thesis by (cases f) (auto simp: process_file_def)
    qed
  next
    case 2
    then have "comes_from fo [(dirpath, f # fs)] entry"
      unfolding comes_from_def by auto
    then show ?thesis ..
  qed
qed

lemma process_walk_comes_from:
  "process_walk fo w hs = Inr hs' \<Longrightarrow> entry \<in> set hs' \<Longrightarrow>
     entry \<in> set hs \<or> comes_from fo w entry"
proof (induction w arbitrary: hs)
  case Nil
  then show ?case by simp
next
  case (Cons p w)
  obtain d fs where p: "p = (d, fs)" by (cases p)
  from Cons.prems(1) p obtain hs1 where f: "process_files fo d fs hs = Inr hs1"
    and r: "process_walk fo w hs1 = Inr hs'"
    by (auto split: sum.splits)
  from Cons.IH [OF r Cons.prems(2)]
  consider "entry \<in> set hs1" | "comes_from fo w entry" by blast
  then show ?case
  proof cases
    case 1
    from process_files_comes_from [OF f 1] show ?thesis
      by (auto simp: p intro: comes_from_mono)
  next
    case 2
    then show ?thesis by (auto intro: comes_from_mono)
  qed
qed

text \<open>
  C5. A header whose image type is multi-valued and holds the value \<open>DERIVED\<close> passes
  the test of line 64 and leaves the dictionary as it is. A run gives the same result,
  dictionary or exception, as a run over the same walk without the files that are
  derived images; and every entry of the dictionary that a run returns comes from a file
  whose header the test of line 64 found not derived.
\<close>

theorem derived_headers_contribute_nothing:
  "(dicom ''ImageType'' = Some (VMulti vs) \<and> VStr ''DERIVED'' \<in> set vs
      \<longrightarrow> is_derived dicom \<and> process_header fo dirpath dicom hs0 = Inr hs0)
   \<and> process_walk fo (without_derived (os_walk directory_path)) []
     = process_directory fo directory_path
   \<and> (\<forall>hs entry. process_directory fo directory_path = Inr hs \<longrightarrow> entry \<in> set hs
         \<longrightarrow> comes_from fo (os_walk directory_path) entry)"
proof -
  have "is_derived dicom \<and> process_header fo dirpath dicom hs0 = Inr hs0"
    if "dicom ''ImageType'' = Some (VMulti vs) \<and> VStr ''DERIVED'' \<in> set vs"
  proof -
    from that have "is_derived dicom" by (simp add: is_derived_def getattr_def)
    then show ?thesis by (simp add: process_header_derived)
  qed
  moreover have "process_walk fo (without_derived (os_walk directory_path)) []
     = process_directory fo directory_path"
    by (simp add: process_directory_def process_walk_without_derived)
  moreover have "comes_from fo (os_walk directory_path) entry"
    if "process_directory fo directory_path = Inr hs" and "entry \<in> set hs" for hs entry
    using process_walk_comes_from [of fo "os_walk directory_path" "[]" hs entry] that
    by (simp add: process_directory_def)
  ultimately show ?thesis by blast
qed

theorem derived_headers_contribute_nothing_witness:
  "is_derived derived_header
   \<and> process_header exact_ops derived_tree derived_header [] = Inr []
   \<and> process_directory exact_ops derived_tree = Inr [(VStr ''1.2.3'', sectra_header)]
   \<and> without_derived (os_walk derived_tree) = [(derived_tree, [FsFile True (Header sectra_header)])]
   \<and> comes_from exact_ops (os_walk derived_tree) (VStr ''1.2.3'', sectra_header)"
proof -
  have 0: "derived_header ''ImageType'' = Some (VMulti [VStr ''DERIVED'', VStr ''SECONDARY''])
           \<and> VStr ''DERIVED'' \<in> set [VStr ''DERIVED'', VStr ''SECONDARY'' :: rat pyval]"
    by (simp add: derived_header_def)
  have 1: "process_directory exact_ops derived_tree = Inr [(VStr ''1.2.3'', sectra_header)]"
    by (simp add: process_directory_def derived_tree_def process_file_def process_header_def
        getattr_def derived_header_def sectra_header_def original_def vendor_correct_def
        str_strip_def is_space_def Let_def exact_ops_def)
  have 2: "without_derived (os_walk derived_tree) = [(derived_tree, [FsFile True (Header sectra_header)])]"
    by (simp add: without_derived_def derived_tree_def derived_file_def is_derived_def
        getattr_def derived_header_def sectra_header_def original_def)
  from derived_headers_contribute_nothing
         [of derived_header "[VStr ''DERIVED'', VStr ''SECONDARY'']" exact_ops derived_tree "[]"
             derived_tree] 0 1
  have "is_derived derived_header
   \<and> process_header exact_ops derived_tree derived_header [] = Inr []
   \<and> comes_from exact_ops (os_walk derived_tree) (VStr ''1.2.3'', sectra_header)" by simp
  with 1 2 show ?thesis by simp
qed

subsection \<open>One entry per series: the first header wins\<close>

lemma process_files_flat:
  "process_files fo dirpath files hs = Inr hs'
     \<Longrightarrow> process_headers fo (headers_of_files dirpath files) hs = Inr hs'"
proof (induction files arbitrary: hs)
  case Nil
  then show ?case by simp
next
  case (Cons f fs)
  from Cons.prems obtain hs1 where f: "process_file fo dirpath f hs = Inr hs1"
    and fs: "process_files fo dirpath fs hs1 = Inr hs'"
    by (auto split: sum.splits)
  from Cons.IH [OF fs] have r: "process_headers fo (headers_of_files dirpath fs) hs1 = Inr hs'" .
  show ?case
  proof (cases "dcmread f")
    case (Header dicom)
    with f have "process_header fo dirpath dicom hs = Inr hs1"
      by (cases f) (auto simp: process_file_def)
    with r Header show ?thesis by simp
  next
    case InvalidDicomError
    with f have "hs1 = hs" by (cases f) (auto simp: process_file_def)
    with r InvalidDicomError show ?thesis by simp
  next
    case OtherError
    with f show ?thesis by (cases f) (auto simp: process_file_def)
  qed
qed

lemma process_headers_append:
  "process_headers fo (xs @ ys) hs =
     (case process_headers fo xs hs of Inl e \<Rightarrow> Inl e | Inr hs1 \<Rightarrow> process_headers fo ys hs1)"
  by (induction xs arbitrary: hs) (auto split: sum.splits)

lemma process_walk_flat:
  "process_walk fo w hs = Inr hs' \<Longrightarrow> process_headers fo (headers_of_walk w) hs = Inr hs'"
proof (induction w arbitrary: hs)
  case Nil
  then show ?case by simp
next
  case (Cons p w)
  obtain d fs where p: "p = (d, fs)" by (cases p)
  from Cons.prems p obtain hs1 where f: "process_files fo d fs hs = Inr hs1"
    and r: "process_walk fo w hs1 = Inr hs'"
    by (auto split: sum.splits)
  from process_files_flat [OF f] Cons.IH [OF r] show ?case
    by (simp add: p process_headers_append)
qed

lemma py_eq_VStr: "py_eq fo k (VStr s) = (k = VStr s)"
  by (cases k) auto

lemma key_in_VStr: "key_in fo (VStr s) hs = Inr (entries_of s hs \<noteq> [])"
  by (induction hs) (auto simp: entries_of_def py_eq_VStr)

lemma entries_of_append: "entries_of s (hs @ hs') = entries_of s hs @ entries_of s hs'"
  by (simp add: entries_of_def)

lemma process_header_other:
  assumes "process_header fo dirpath dicom hs = Inr hs'"
    and "\<not> qualifies s (dirpath, dicom) \<or> entries_of s hs \<noteq> []"
  shows "entries_of s hs' = entries_of s hs"
proof (cases "hs' = hs")
  case True
  then show ?thesis by simp
next
  case False
  with assms(1) obtain dicom' where d: "py_in ''DERIVED'' (getattr dicom ''ImageType'' VNone) = Inr False"
    and k: "key_in fo (getattr dicom ''SeriesInstanceUID'' VNone) hs = Inr False"
    and h: "hs' = hs @ [(getattr dicom ''SeriesInstanceUID'' VNone, dicom')]"
    by (auto simp: process_header_def Let_def split: sum.splits bool.splits if_splits)
  have "getattr dicom ''SeriesInstanceUID'' VNone \<noteq> VStr s"
  proof
    assume u: "getattr dicom ''SeriesInstanceUID'' VNone = VStr s"
    then have "dicom ''SeriesInstanceUID'' = Some (VStr s)"
      by (auto simp: getattr_def split: option.splits)
    with d have "qualifies s (dirpath, dicom)" by (simp add: qualifies_def)
    with assms(2) have "entries_of s hs \<noteq> []" by blast
    with k u show False by (simp add: key_in_VStr del: key_in.simps)
  qed
  with h show ?thesis by (simp add: entries_of_def)
qed

lemma process_header_first:
  assumes "process_header fo dirpath dicom hs = Inr hs'"
    and "qualifies s (dirpath, dicom)" and "entries_of s hs = []" and "s \<noteq> []"
  shows "\<exists>dicom'. vendor_correct fo dirpath dicom = Inr dicom'
            \<and> entries_of s hs' = [(VStr s, dicom')]"
proof -
  from assms(2) have d: "py_in ''DERIVED'' (getattr dicom ''ImageType'' VNone) = Inr False"
    and u: "getattr dicom ''SeriesInstanceUID'' VNone = VStr s"
    by (simp_all add: qualifies_def getattr_def)
  from assms(3) have k: "key_in fo (VStr s) hs = Inr False"
    by (simp add: key_in_VStr del: key_in.simps)
  from assms(1) d u k assms(4) obtain dicom' where "vendor_correct fo dirpath dicom = Inr dicom'"
    and "hs' = hs @ [(VStr s, dicom')]"
    by (auto simp: process_header_def simp del: key_in.simps split: sum.splits)
  with assms(3) show ?thesis by (simp add: entries_of_append) (simp add: entries_of_def)
qed

lemma process_headers_entries:
  assumes "process_headers fo hdrs hs = Inr hs'" and "s \<noteq> []"
  shows "(entries_of s hs \<noteq> [] \<longrightarrow> entries_of s hs' = entries_of s hs)
       \<and> (entries_of s hs = [] \<longrightarrow> first_wins fo s hdrs hs')"
  using assms(1)
proof (induction hdrs arbitrary: hs)
  case Nil
  then show ?case by (simp add: first_wins_def)
next
  case (Cons h hdrs)
  obtain d dicom where h: "h = (d, dicom)" by (cases h)
  from Cons.prems h obtain hs1 where 1: "process_header fo d dicom hs = Inr hs1"
    and r: "process_headers fo hdrs hs1 = Inr hs'"
    by (auto split: sum.splits)
  note IH = Cons.IH [OF r]
  show ?case
  proof (intro conjI impI)
    assume e: "entries_of s hs \<noteq> []"
    with process_header_other [OF 1] have "entries_of s hs1 = entries_of s hs" by blast
    with IH e show "entries_of s hs' = entries_of s hs" by simp
  next
    assume e: "entries_of s hs = []"
    show "first_wins fo s (h # hdrs) hs'"
    proof (cases "qualifies s (d, dicom)")
      case True
      from process_header_first [OF 1 True e assms(2)] obtain dicom'
        where v: "vendor_correct fo d dicom = Inr dicom'"
          and e1: "entries_of s hs1 = [(VStr s, dicom')]" by blast
      with IH have "entries_of s hs' = [(VStr s, dicom')]" by simp
      with v True show ?thesis by (simp add: first_wins_def h)
    next
      case False
      with process_header_other [OF 1] e have "entries_of s hs1 = []" by simp
      with IH have "first_wins fo s hdrs hs'" by simp
      with False show ?thesis by (simp add: first_wins_def h)
    qed
  qed
qed

lemma rows_of_series_eq:
  "rows_of_series s hs select = map (\<lambda>(uid, dicom). csv_row select dicom) (entries_of s hs)"
  by (induction hs) (auto simp: rows_of_series_def entries_of_def dicom_headers_to_csv_def)

text \<open>
  C1. Take a run that returns a dictionary and a non-empty identifier \<open>s\<close>. If no header
  of the walk is not derived and has the identifier \<open>s\<close>, the dictionary has no entry and
  the table no row for \<open>s\<close>. Otherwise the dictionary has exactly one entry for \<open>s\<close> and
  the table exactly one row, and they hold the fields of the first such header in the
  order of the traversal, as the vendor correction of that header leaves them: no later
  header with the same identifier contributes a field.
\<close>

theorem first_header_wins:
  assumes "process_directory fo directory_path = Inr hs" and "s \<noteq> []"
  shows "case find (qualifies s) (headers_of_walk (os_walk directory_path)) of
           None \<Rightarrow> entries_of s hs = [] \<and> rows_of_series s hs select = []
         | Some (dirpath, dicom) \<Rightarrow>
             (\<exists>dicom'. vendor_correct fo dirpath dicom = Inr dicom'
                \<and> entries_of s hs = [(VStr s, dicom')]
                \<and> rows_of_series s hs select = [csv_row select dicom'])"
proof -
  from assms(1) have "process_headers fo (headers_of_walk (os_walk directory_path)) [] = Inr hs"
    unfolding process_directory_def by (rule process_walk_flat)
  from process_headers_entries [OF this assms(2)]
  have "first_wins fo s (headers_of_walk (os_walk directory_path)) hs"
    by (simp add: entries_of_def)
  then show ?thesis
    by (auto simp: first_wins_def rows_of_series_eq split: option.splits)
qed

theorem first_header_wins_witness:
  "process_directory exact_ops same_series_tree
   = Inr [(VStr ''1.2.7'', planmeca_header(''ImagesInAcquisition'' \<mapsto> VInt 2,
                             ''AcquiredImageAreaDoseProduct'' \<mapsto> VFloat 5000)),
          (VStr ''1.2.3'', sectra_header)]
   \<and> rows_of_series ''1.2.7''
        [(VStr ''1.2.7'', planmeca_header(''ImagesInAcquisition'' \<mapsto> VInt 2,
                             ''AcquiredImageAreaDoseProduct'' \<mapsto> VFloat 5000)),
          (VStr ''1.2.3'', sectra_header)]
        [''Manufacturer'', ''StationName'', ''ImagesInAcquisition'']
     = [[VStr ''Planmeca ProMax Mid'', VStr [], VInt 2]]"
proof -
  let ?d = "Dir [FsFile True (Header planmeca_header), FsFile True (Header same_series_header)] []"
  let ?p = "planmeca_header(''ImagesInAcquisition'' \<mapsto> VInt 2,
                             ''AcquiredImageAreaDoseProduct'' \<mapsto> VFloat 5000)"
  let ?hs = "[(VStr ''1.2.7'', ?p), (VStr ''1.2.3'', sectra_header)]"
  have v: "vendor_correct exact_ops ?d planmeca_header = Inr ?p"
    by (simp add: vendor_correct_def planmeca_header_def getattr_def attr_def strip_Morita
        strip_Planmeca count_files_eq exact_ops_def)
  have v2: "vendor_correct exact_ops (Dir [FsFile True (Header sectra_header)] []) sectra_header = Inr sectra_header"
    by (simp add: vendor_correct_def sectra_header_def getattr_def strip_Morita strip_Planmeca)
  have i: "planmeca_header ''ImageType'' = Some original"
       "same_series_header ''ImageType'' = Some original"
       "sectra_header ''ImageType'' = Some original"
    and u: "planmeca_header ''SeriesInstanceUID'' = Some (VStr ''1.2.7'')"
       "same_series_header ''SeriesInstanceUID'' = Some (VStr ''1.2.7'')"
       "sectra_header ''SeriesInstanceUID'' = Some (VStr ''1.2.3'')"
    by (simp_all add: planmeca_header_def same_series_header_def sectra_header_def)
  have o: "py_in ''DERIVED'' original = Inr False" by (simp add: original_def)
  have 1: "process_directory exact_ops same_series_tree = Inr ?hs"
    by (simp add: process_directory_def same_series_tree_def process_file_def process_header_def
        getattr_def i u o v v2)
  have f: "find (qualifies ''1.2.7'') (headers_of_walk (os_walk same_series_tree))
           = Some (?d, planmeca_header)"
    by (simp add: same_series_tree_def qualifies_def getattr_def i u o)
  from first_header_wins [OF 1, of "''1.2.7''" "[''Manufacturer'', ''StationName'', ''ImagesInAcquisition'']"]
  have "rows_of_series ''1.2.7'' ?hs [''Manufacturer'', ''StationName'', ''ImagesInAcquisition'']
        = [csv_row [''Manufacturer'', ''StationName'', ''ImagesInAcquisition''] ?p]"
    unfolding f using v by simp
  then have "rows_of_series ''1.2.7'' ?hs [''Manufacturer'', ''StationName'', ''ImagesInAcquisition'']
        = [[VStr ''Planmeca ProMax Mid'', VStr [], VInt 2]]"
    by (simp add: csv_row_def getattr_def planmeca_header_def str_replace_def)
  with 1 show ?thesis by simp
qed

subsection \<open>The export\<close>

text \<open>
  C4. \<open>clean_value\<close> turns a line feed into a space, but it leaves the semicolon, which
  is the delimiter of the writer, where it is, and it turns every comma into one more
  semicolon.
\<close>

theorem clean_value_keeps_delimiter:
  "clean_value (VStr (''a;b'' @ [CHR 0x0A] @ ''c'')) = VStr ''a;b c''
   \<and> clean_value (VStr ''1,5'') = VStr ''1;5''"
  by (simp add: str_replace_def)

text \<open>
  C9. The export has no failing branch: it gives one row per retained header and one
  cell per selected field, and the cell of a field that the header lacks is the empty
  string.
\<close>

theorem missing_field_gives_empty_cell:
  assumes "j < length dicom_headers" and "snd (dicom_headers ! j) field = None"
    and "i < length select" and "select ! i = field"
  shows "length (snd (dicom_headers_to_csv dicom_headers select)) = length dicom_headers
       \<and> length (snd (dicom_headers_to_csv dicom_headers select) ! j) = length select
       \<and> snd (dicom_headers_to_csv dicom_headers select) ! j ! i = VStr []"
  using assms
  by (auto simp add: dicom_headers_to_csv_def csv_row_def getattr_def str_replace_def
      split: prod.splits)

theorem missing_field_gives_empty_cell_witness:
  "snd (dicom_headers_to_csv [(VStr ''1.2.3'', sectra_header)]
          [''Manufacturer'', ''KVP'', ''SeriesInstanceUID'']) ! 0 ! 1 = VStr []"
  using missing_field_gives_empty_cell
    [of 0 "[(VStr ''1.2.3'', sectra_header)]" "''KVP''" 1
        "[''Manufacturer'', ''KVP'', ''SeriesInstanceUID'']"]
  by (simp add: sectra_header_def)

end
